theory Spec2Isabelle
  imports Main "HOL-Library.Word"
begin

unbundle bit_operations_syntax

section \<open>The MQTT bridge of ebusd: topic templates, variable store, dispatch\<close>

text \<open>
  A shallow embedding of \<^verbatim>\<open>src/ebusd/mqtthandler.cpp\<close>. A \<^verbatim>\<open>std::string\<close> is a
  \<open>string\<close> (a list of bytes), \<^verbatim>\<open>size_t\<close> positions are \<open>nat\<close>, \<^verbatim>\<open>npos\<close> is
  \<open>None\<close>, \<^verbatim>\<open>ssize_t\<close> and \<^verbatim>\<open>int\<close> values that never overflow here are \<open>int\<close>.
\<close>

subsection \<open>The operations of \<^verbatim>\<open>std::string\<close> that the code uses\<close>

text \<open>\<^verbatim>\<open>s.substr(pos, n)\<close> throws \<^verbatim>\<open>std::out_of_range\<close> when \<open>pos > s.size()\<close>.\<close>

definition substr :: "string \<Rightarrow> nat \<Rightarrow> nat \<Rightarrow> string option" where
  "substr s pos n = (if pos > length s then None else Some (take n (drop pos s)))"

text \<open>\<^verbatim>\<open>s.find(pat, pos)\<close>: the first index at or after \<open>pos\<close> where \<open>pat\<close> occurs
  (the empty pattern occurs at every index up to \<open>s.size()\<close>).\<close>

definition find_str :: "string \<Rightarrow> string \<Rightarrow> nat \<Rightarrow> nat option" where
  "find_str s pat pos =
     List.find (\<lambda>i. take (length pat) (drop i s) = pat) [pos ..< Suc (length s)]"

text \<open>\<^verbatim>\<open>s.find(ch, pos)\<close>.\<close>

definition find_char :: "string \<Rightarrow> char \<Rightarrow> nat \<Rightarrow> nat option" where
  "find_char s ch pos = List.find (\<lambda>i. s ! i = ch) [pos ..< length s]"

text \<open>\<^verbatim>\<open>s.find_last_of(ch)\<close>.\<close>

definition find_last_of :: "string \<Rightarrow> char \<Rightarrow> nat option" where
  "find_last_of s ch = List.find (\<lambda>i. s ! i = ch) (rev [0 ..< length s])"

text \<open>\<^verbatim>\<open>s.find_first_of(chars) != npos\<close>.\<close>

definition contains_any :: "string \<Rightarrow> string \<Rightarrow> bool" where
  "contains_any s chars = (\<exists>c \<in> set s. c \<in> set chars)"

subsection \<open>Character classes of the C locale\<close>

text \<open>\<^verbatim>\<open>isalnum\<close> and \<^verbatim>\<open>toupper\<close> in the C locale: a byte outside ASCII is in no
  class and is left as it is.\<close>

definition is_lower :: "char \<Rightarrow> bool" where
  "is_lower c = (of_char (CHR ''a'') \<le> (of_char c :: nat) \<and> (of_char c :: nat) \<le> of_char (CHR ''z''))"

definition is_upper :: "char \<Rightarrow> bool" where
  "is_upper c = (of_char (CHR ''A'') \<le> (of_char c :: nat) \<and> (of_char c :: nat) \<le> of_char (CHR ''Z''))"

definition is_digit :: "char \<Rightarrow> bool" where
  "is_digit c = (of_char (CHR ''0'') \<le> (of_char c :: nat) \<and> (of_char c :: nat) \<le> of_char (CHR ''9''))"

definition isalnum :: "char \<Rightarrow> bool" where
  "isalnum c = (is_digit c \<or> is_upper c \<or> is_lower c)"

definition toupper :: "char \<Rightarrow> char" where
  "toupper c = (if is_lower c then char_of (of_char c - (32::nat)) else c)"

subsection \<open>Template parts\<close>

text \<open>
  A part is \<^verbatim>\<open>std::pair<string, int>\<close>: the text and an index, negative for a literal,
  the position in \<open>knownFieldNames\<close> for a known field, \<open>knownFieldCount\<close> for another field.
\<close>

type_synonym part = "string \<times> int"

record MqttReplacer =
  m_parts :: "part list"
  m_emptyIfMissing :: bool

definition knownFieldNames :: "string list" where
  "knownFieldNames = [''circuit'', ''name'', ''field'']"

definition knownFieldCount :: nat where
  "knownFieldCount = length knownFieldNames"

text \<open>The loop of \<open>makeField\<close> over the known names, from index \<open>idx\<close>.\<close>

fun knownIndex :: "string \<Rightarrow> string list \<Rightarrow> int \<Rightarrow> int" where
  "knownIndex name [] idx = int knownFieldCount"
| "knownIndex name (k # ks) idx = (if name = k then idx else knownIndex name ks (idx + 1))"

definition makeField :: "string \<Rightarrow> bool \<Rightarrow> part" where
  "makeField name isField =
     (if \<not> isField then (name, - 1) else (name, knownIndex name knownFieldNames 0))"

subsection \<open>\<^verbatim>\<open>MqttReplacer::parse\<close>\<close>

text \<open>The scanner's variables: the parts pushed so far, \<open>inField\<close>, and the \<open>stack\<close> stream.\<close>

record scan_state =
  sc_parts :: "part list"
  sc_inField :: bool
  sc_stack :: string

definition isFieldChar :: "char \<Rightarrow> bool" where
  "isFieldChar ch = (is_lower ch \<or> is_upper ch \<or> ch = CHR ''_'')"

text \<open>One iteration of the scanning loop, for the character \<open>ch\<close>
  (\<open>CHR 0x00\<close> stands for the position one past the end).\<close>

definition scan_char :: "scan_state \<Rightarrow> char \<Rightarrow> scan_state" where
  "scan_char st ch =
     (let empty = (sc_stack st = []) in
      if ch = CHR ''%'' \<or> ch = CHR 0x00 then
        (if sc_inField st \<and> empty then
           st\<lparr>sc_inField := False, sc_stack := sc_stack st @ [ch]\<rparr>
         else if \<not> empty then
           st\<lparr>sc_parts := sc_parts st @ [makeField (sc_stack st) (sc_inField st)],
              sc_stack := [], sc_inField := True\<rparr>
         else st\<lparr>sc_inField := True\<rparr>)
      else if sc_inField st \<and> \<not> isFieldChar ch then
        (if sc_stack st \<noteq> [] then
           st\<lparr>sc_parts := sc_parts st @ [makeField (sc_stack st) True],
              sc_stack := [ch], sc_inField := False\<rparr>
         else st\<lparr>sc_inField := False, sc_stack := sc_stack st @ [ch]\<rparr>)
      else st\<lparr>sc_stack := sc_stack st @ [ch]\<rparr>)"

text \<open>The scanning loop: positions \<open>0 .. end\<close>, after \<open>m_parts.clear()\<close>.\<close>

definition scanTemplate :: "string \<Rightarrow> part list" where
  "scanTemplate templateStr =
     sc_parts (foldl scan_char \<lparr>sc_parts = [], sc_inField = False, sc_stack = []\<rparr>
                 (templateStr @ [CHR 0x00]))"

text \<open>The checking loop over the parts, with \<open>foundMask\<close>; \<open>False\<close> is the early
  \<^verbatim>\<open>return false\<close>.\<close>

fun checkParts :: "bool \<Rightarrow> bool \<Rightarrow> part list \<Rightarrow> int \<Rightarrow> bool" where
  "checkParts onlyKnown noKnownDuplicates [] foundMask = True"
| "checkParts onlyKnown noKnownDuplicates (it # rest) foundMask =
     (if snd it < 0 then checkParts onlyKnown noKnownDuplicates rest foundMask
      else if onlyKnown \<and> snd it \<ge> int knownFieldCount then False
      else if noKnownDuplicates \<and> snd it < int knownFieldCount then
        (let bit = push_bit (nat (snd it)) (1::int) in
         if foundMask AND bit \<noteq> 0 then False
         else checkParts onlyKnown noKnownDuplicates rest (foundMask OR bit))
      else checkParts onlyKnown noKnownDuplicates rest foundMask)"

text \<open>\<open>parse\<close> returns its boolean and the replacer as it is left.\<close>

definition parse :: "MqttReplacer \<Rightarrow> string \<Rightarrow> bool \<Rightarrow> bool \<Rightarrow> bool \<Rightarrow> bool \<times> MqttReplacer" where
  "parse r templateStr onlyKnown noKnownDuplicates emptyIfMissing =
     (let r1 = r\<lparr>m_parts := scanTemplate templateStr\<rparr> in
      if (onlyKnown \<or> noKnownDuplicates)
         \<and> \<not> checkParts onlyKnown noKnownDuplicates (m_parts r1) 0
      then (False, r1)
      else (True, r1\<lparr>m_emptyIfMissing := emptyIfMissing\<rparr>))"

subsection \<open>\<open>normalize\<close>, \<open>has\<close>, \<open>ensureDefault\<close>\<close>

definition normalize :: "string \<Rightarrow> string" where
  "normalize str = map (\<lambda>c. if isalnum c then c else CHR ''_'') str"

definition has :: "MqttReplacer \<Rightarrow> string \<Rightarrow> bool" where
  "has r field = (\<exists>it \<in> set (m_parts r). snd it \<ge> 0 \<and> fst it = field)"

text \<open>\<open>PACKAGE\<close> is a macro of the build configuration; it is a parameter here.\<close>

definition ensureDefault :: "string \<Rightarrow> MqttReplacer \<Rightarrow> MqttReplacer" where
  "ensureDefault PACKAGE r =
     (let r1 = (if m_parts r = [] then r\<lparr>m_parts := [(PACKAGE @ ''/'', - 1)]\<rparr>
                else if length (m_parts r) = 1 \<and> snd (m_parts r ! 0) < 0
                        \<and> find_char (fst (m_parts r ! 0)) (CHR ''/'') 0 = None
                     then r\<lparr>m_parts := (m_parts r)[0 := (fst (m_parts r ! 0) @ ''/'', - 1)]\<rparr>
                else r);
          r2 = (if \<not> has r1 ''circuit''
                then r1\<lparr>m_parts := m_parts r1 @ [(''circuit'', 0), (''/'', - 1)]\<rparr> else r1)
      in if \<not> has r2 ''name'' then r2\<lparr>m_parts := m_parts r2 @ [(''name'', 1)]\<rparr> else r2)"

subsection \<open>\<^verbatim>\<open>MqttReplacer::get\<close>, \<open>isReducable\<close>, \<open>reduce\<close>\<close>

text \<open>A \<^verbatim>\<open>map<string, string>\<close> read by \<^verbatim>\<open>find\<close> is a partial function.\<close>

type_synonym valmap = "string \<rightharpoonup> string"

text \<open>The loop of \<open>get\<close> with the stream \<open>ret\<close>; a \<^verbatim>\<open>break\<close> returns \<open>ret\<close> as it is.\<close>

fun get_loop :: "valmap \<Rightarrow> bool \<Rightarrow> part list \<Rightarrow> string \<Rightarrow> string" where
  "get_loop vals untilFirstEmpty [] ret = ret"
| "get_loop vals untilFirstEmpty (it # rest) ret =
     (if snd it < 0 then get_loop vals untilFirstEmpty rest (ret @ fst it)
      else case vals (fst it) of
             None \<Rightarrow> (if untilFirstEmpty then ret else get_loop vals untilFirstEmpty rest ret)
           | Some v \<Rightarrow> (if untilFirstEmpty \<and> v = [] then ret
                       else get_loop vals untilFirstEmpty rest (ret @ v)))"

definition get :: "MqttReplacer \<Rightarrow> valmap \<Rightarrow> bool \<Rightarrow> bool \<Rightarrow> string" where
  "get r vals untilFirstEmpty onlyAlphanum =
     (let str = get_loop vals untilFirstEmpty (m_parts r) [] in
      if \<not> onlyAlphanum then str else normalize str)"

fun isReducable_loop :: "valmap \<Rightarrow> part list \<Rightarrow> bool" where
  "isReducable_loop vals [] = True"
| "isReducable_loop vals (it # rest) =
     (if snd it < 0 then isReducable_loop vals rest
      else case vals (fst it) of None \<Rightarrow> False | Some v \<Rightarrow> isReducable_loop vals rest)"

definition isReducable :: "MqttReplacer \<Rightarrow> valmap \<Rightarrow> bool" where
  "isReducable r vals = isReducable_loop vals (m_parts r)"

text \<open>\<open>reduce\<close> returns its boolean and the string left in \<open>result\<close> (every path
  assigns it).\<close>

fun reduce_loop :: "valmap \<Rightarrow> bool \<Rightarrow> bool \<Rightarrow> part list \<Rightarrow> string \<Rightarrow> bool \<times> string" where
  "reduce_loop vals emptyIfMissing onlyAlphanum [] ret =
     (True, if onlyAlphanum then normalize ret else ret)"
| "reduce_loop vals emptyIfMissing onlyAlphanum (it # rest) ret =
     (if snd it < 0 then reduce_loop vals emptyIfMissing onlyAlphanum rest (ret @ fst it)
      else case vals (fst it) of
             None \<Rightarrow> (False, if emptyIfMissing then [] else ret)
           | Some v \<Rightarrow> (if emptyIfMissing \<and> v = [] then (True, [])
                       else reduce_loop vals emptyIfMissing onlyAlphanum rest (ret @ v)))"

definition reduce :: "MqttReplacer \<Rightarrow> valmap \<Rightarrow> bool \<Rightarrow> bool \<times> string" where
  "reduce r vals onlyAlphanum = reduce_loop vals (m_emptyIfMissing r) onlyAlphanum (m_parts r) []"

subsection \<open>\<^verbatim>\<open>MqttReplacer::matchTopic\<close>\<close>

text \<open>The three out-parameters.\<close>

record topic_outs =
  out_circuit :: string
  out_name :: string
  out_field :: string

text \<open>What one iteration of the loop does: return, go on with a new \<open>last\<close> (here \<open>lastp\<close>), or raise
  the \<^verbatim>\<open>out_of_range\<close> of \<^verbatim>\<open>substr\<close>.\<close>

datatype match_step = Return int topic_outs | Next nat topic_outs | OutOfRange

definition assign_out :: "int \<Rightarrow> string \<Rightarrow> topic_outs \<Rightarrow> topic_outs" where
  "assign_out k v outs =
     (if k = 0 then outs\<lparr>out_circuit := v\<rparr>
      else if k = 1 then outs\<lparr>out_name := v\<rparr>
      else if k = 2 then outs\<lparr>out_field := v\<rparr>
      else outs)"

definition matchTopic_step :: "part list \<Rightarrow> string \<Rightarrow> nat \<Rightarrow> nat \<Rightarrow> topic_outs \<Rightarrow> match_step" where
  "matchTopic_step parts remain idx lastp outs =
     (let part = parts ! idx in
      if snd part < 0 then
        (case substr remain lastp (length (fst part)) of
           None \<Rightarrow> OutOfRange
         | Some s \<Rightarrow> if s \<noteq> fst part then Return (int idx) outs
                     else Next (lastp + length (fst part)) outs)
      else if idx + 1 < length parts then
        (case find_str remain (fst (parts ! (idx + 1))) lastp of
           None \<Rightarrow> Return (- int idx - 1) outs
         | Some pos \<Rightarrow>
             (case substr remain lastp (pos - lastp) of
                None \<Rightarrow> OutOfRange
              | Some v \<Rightarrow> Next (lastp + length v) (assign_out (snd part) v outs)))
      else
        (case find_char remain (CHR ''/'') lastp of
           Some pos \<Rightarrow> Return (- int idx - 1) outs
         | None \<Rightarrow> Next (lastp + length remain) (assign_out (snd part) remain outs)))"

function matchTopic_loop ::
  "part list \<Rightarrow> string \<Rightarrow> nat \<Rightarrow> nat \<Rightarrow> topic_outs \<Rightarrow> (int \<times> topic_outs) option" where
  "matchTopic_loop parts remain idx lastp outs =
     (if idx < length parts then
        (case matchTopic_step parts remain idx lastp outs of
           Return r outs' \<Rightarrow> Some (r, outs')
         | OutOfRange \<Rightarrow> None
         | Next lastp' outs' \<Rightarrow> matchTopic_loop parts remain (idx + 1) lastp' outs')
      else Some (int idx, outs))"
  by pat_completeness auto
termination
  by (relation "measure (\<lambda>(parts, remain, idx, lastp, outs). length parts - idx)") auto

text \<open>\<open>matchTopic\<close>: the returned \<^verbatim>\<open>ssize_t\<close> and the out-parameters as they are left;
  \<open>None\<close> is the exception of \<^verbatim>\<open>substr\<close>.\<close>

definition matchTopic :: "MqttReplacer \<Rightarrow> string \<Rightarrow> topic_outs \<Rightarrow> (int \<times> topic_outs) option" where
  "matchTopic r remain outs = matchTopic_loop (m_parts r) remain 0 0 outs"

subsection \<open>The variable store \<^verbatim>\<open>MqttReplacers\<close>\<close>

text \<open>
  \<open>m_constants\<close> is a \<^verbatim>\<open>map<string, string>\<close>. \<open>m_replacers\<close> is a
  \<^verbatim>\<open>map<string, MqttReplacer>\<close> that the code iterates: it is the list of its entries
  in iteration order (keys distinct), an iterator is an index into it and \<^verbatim>\<open>end()\<close> is
  its length.
\<close>

record MqttReplacers =
  m_constants :: "string \<rightharpoonup> string"
  m_replacers :: "(string \<times> MqttReplacer) list"

text \<open>\<^verbatim>\<open>m.erase(key)\<close> and \<^verbatim>\<open>m.erase(it)\<close>.\<close>

definition erase_key :: "string \<Rightarrow> (string \<times> 'a) list \<Rightarrow> (string \<times> 'a) list" where
  "erase_key key xs = filter (\<lambda>e. fst e \<noteq> key) xs"

definition erase_at :: "nat \<Rightarrow> 'a list \<Rightarrow> 'a list" where
  "erase_at i xs = take i xs @ drop (Suc i) xs"

text \<open>The string overload of \<^verbatim>\<open>MqttReplacers::set\<close>: its boolean and the store.\<close>

definition MqttReplacers_set ::
  "MqttReplacers \<Rightarrow> string \<Rightarrow> string \<Rightarrow> bool \<Rightarrow> bool \<times> MqttReplacers" where
  "MqttReplacers_set s key val removeReplacer =
     (let s1 = s\<lparr>m_constants := (m_constants s)(key \<mapsto> val)\<rparr>;
          s2 = (if removeReplacer then s1\<lparr>m_replacers := erase_key key (m_replacers s1)\<rparr> else s1)
      in if contains_any key ''-_'' then (False, s2)
         else let upper = map toupper key in
              if upper = key then (False, s2)
              else let s3 = s2\<lparr>m_constants := (m_constants s2)(upper \<mapsto> normalize val)\<rparr>;
                       s4 = (if removeReplacer
                             then s3\<lparr>m_replacers := erase_key upper (m_replacers s3)\<rparr> else s3)
                   in (True, s4))"

text \<open>What \<^verbatim>\<open>ostringstream << int\<close> writes: the decimal digits, with a minus sign
  for a negative value.\<close>

definition digit_char :: "nat \<Rightarrow> char" where
  "digit_char d = char_of (of_char (CHR ''0'') + d)"

function dec_digits :: "nat \<Rightarrow> string" where
  "dec_digits n =
     (if n < 10 then [digit_char n] else dec_digits (n div 10) @ [digit_char (n mod 10)])"
  by pat_completeness auto
termination
  by (relation "measure id") auto

definition stream_int :: "int \<Rightarrow> string" where
  "stream_int i = (if i < 0 then CHR ''-'' # dec_digits (nat (- i)) else dec_digits (nat i))"

text \<open>The integer overload of \<^verbatim>\<open>MqttReplacers::set\<close>; an \<^verbatim>\<open>int\<close> has 32 bits.\<close>

definition MqttReplacers_set_int :: "MqttReplacers \<Rightarrow> string \<Rightarrow> 32 word \<Rightarrow> MqttReplacers" where
  "MqttReplacers_set_int s key v =
     s\<lparr>m_constants := (m_constants s)(key \<mapsto> stream_int (sint v))\<rparr>"

subsection \<open>\<^verbatim>\<open>MqttReplacers::reduce\<close>\<close>

text \<open>
  After \<^verbatim>\<open>it = m_replacers.erase(it)\<close> the iterator is at the entry that followed the
  erased one, and may be \<^verbatim>\<open>end()\<close>; the code then reads \<^verbatim>\<open>it->first\<close>. Reading
  through \<^verbatim>\<open>end()\<close> has no defined behaviour: it is the error below.
\<close>

datatype reduce_error = EndIteratorDereferenced

text \<open>
  The \<^verbatim>\<open>for\<close> loop of one pass, from iterator position \<open>i\<close>, with the flag
  \<open>reduced\<close>. \<open>onlyAlphanum\<close> is the default argument of \<open>MqttReplacer::reduce\<close>,
  which the header declares.
\<close>

function MqttReplacers_reduce_pass ::
  "bool \<Rightarrow> MqttReplacers \<Rightarrow> nat \<Rightarrow> bool \<Rightarrow> reduce_error + (MqttReplacers \<times> bool)" where
  "MqttReplacers_reduce_pass onlyAlphanum s i reduced =
     (if i < length (m_replacers s) then
        (let it = m_replacers s ! i in
         if \<not> isReducable (snd it) (m_constants s)
            \<or> \<not> fst (reduce (snd it) (m_constants s) onlyAlphanum)
         then MqttReplacers_reduce_pass onlyAlphanum s (i + 1) reduced
         else
           (let str = snd (reduce (snd it) (m_constants s) onlyAlphanum);
                restart = fst (MqttReplacers_set s (fst it) str False);
                s1 = snd (MqttReplacers_set s (fst it) str False);
                s2 = s1\<lparr>m_replacers := erase_at i (m_replacers s1)\<rparr>
            in if restart then
                 (if i < length (m_replacers s2) then
                    (let upper = map toupper (fst (m_replacers s2 ! i)) in
                     if upper \<in> fst ` set (m_replacers s2)
                     then Inr (s2\<lparr>m_replacers := erase_key upper (m_replacers s2)\<rparr>, True)
                     else MqttReplacers_reduce_pass onlyAlphanum s2 i True)
                  else Inl EndIteratorDereferenced)
               else MqttReplacers_reduce_pass onlyAlphanum s2 i True))
      else Inr (s, reduced))"
  by pat_completeness auto
termination
  by (relation "measure (\<lambda>(oa, s, i, reduced). length (m_replacers s) - i)")
     (auto simp: MqttReplacers_set_def Let_def erase_at_def)

text \<open>A pass that returns with \<open>reduced\<close> set has erased at least one template: this
  is why the \<^verbatim>\<open>do ... while (reduced)\<close> loop ends. A pass that returns with
  \<open>reduced\<close> clear has changed nothing and found no template to fold.\<close>

lemma reduce_pass_result:
  "MqttReplacers_reduce_pass oa s i rd = Inr (s', rd') \<Longrightarrow>
   length (m_replacers s') \<le> length (m_replacers s)
   \<and> (rd' \<and> \<not> rd \<longrightarrow> length (m_replacers s') < length (m_replacers s))
   \<and> (rd \<longrightarrow> rd')
   \<and> (\<not> rd' \<longrightarrow> s' = s
        \<and> (\<forall>j. i \<le> j \<and> j < length (m_replacers s) \<longrightarrow>
               \<not> (isReducable (snd (m_replacers s ! j)) (m_constants s)
                  \<and> fst (reduce (snd (m_replacers s ! j)) (m_constants s) oa))))"
proof (induction oa s i rd rule: MqttReplacers_reduce_pass.induct)
  case (1 oa s i rd)
  show ?case
  proof (cases "i < length (m_replacers s)")
    case False
    with "1.prems" show ?thesis by auto
  next
    case inb: True
    define it where "it = m_replacers s ! i"
    show ?thesis
    proof (cases "\<not> isReducable (snd it) (m_constants s) \<or> \<not> fst (reduce (snd it) (m_constants s) oa)")
      case True
      with inb "1.prems" have "MqttReplacers_reduce_pass oa s (i + 1) rd = Inr (s', rd')"
        by (simp add: it_def)
      from "1.IH"(1) [OF inb it_def True this]
      have ih: "length (m_replacers s') \<le> length (m_replacers s)
         \<and> (rd' \<and> \<not> rd \<longrightarrow> length (m_replacers s') < length (m_replacers s))
         \<and> (rd \<longrightarrow> rd')
         \<and> (\<not> rd' \<longrightarrow> s' = s
              \<and> (\<forall>j. i + 1 \<le> j \<and> j < length (m_replacers s) \<longrightarrow>
                     \<not> (isReducable (snd (m_replacers s ! j)) (m_constants s)
                        \<and> fst (reduce (snd (m_replacers s ! j)) (m_constants s) oa))))" .
      have "\<not> (isReducable (snd (m_replacers s ! j)) (m_constants s)
                \<and> fst (reduce (snd (m_replacers s ! j)) (m_constants s) oa))"
        if "\<not> rd'" and "i \<le> j" and "j < length (m_replacers s)" for j
      proof (cases "j = i")
        case True
        with \<open>\<not> isReducable (snd it) (m_constants s) \<or> \<not> fst (reduce (snd it) (m_constants s) oa)\<close>
        show ?thesis by (simp add: it_def)
      next
        case False
        with that have "i + 1 \<le> j" by simp
        with ih that show ?thesis by blast
      qed
      with ih show ?thesis by blast
    next
      case False
      define str where "str = snd (reduce (snd it) (m_constants s) oa)"
      define restart where "restart = fst (MqttReplacers_set s (fst it) str False)"
      define s1 where "s1 = snd (MqttReplacers_set s (fst it) str False)"
      define s2 where "s2 = s1\<lparr>m_replacers := erase_at i (m_replacers s1)\<rparr>"
      have r1: "m_replacers s1 = m_replacers s"
        by (simp add: s1_def MqttReplacers_set_def Let_def)
      have l2: "length (m_replacers s2) < length (m_replacers s)"
        using inb by (simp add: s2_def r1 erase_at_def)
      have unf: "MqttReplacers_reduce_pass oa s i rd =
         (if restart then
            (if i < length (m_replacers s2) then
               (let upper = map toupper (fst (m_replacers s2 ! i)) in
                if upper \<in> fst ` set (m_replacers s2)
                then Inr (s2\<lparr>m_replacers := erase_key upper (m_replacers s2)\<rparr>, True)
                else MqttReplacers_reduce_pass oa s2 i True)
             else Inl EndIteratorDereferenced)
          else MqttReplacers_reduce_pass oa s2 i True)"
        using inb False
        by (subst MqttReplacers_reduce_pass.simps)
           (simp add: it_def [symmetric] str_def [symmetric] restart_def [symmetric]
              s1_def [symmetric] s2_def [symmetric] Let_def del: MqttReplacers_reduce_pass.simps)
      show ?thesis
      proof (cases restart)
        case nr: False
        with unf "1.prems" have p: "MqttReplacers_reduce_pass oa s2 i True = Inr (s', rd')" by simp
        from "1.IH"(3) [OF inb it_def False str_def restart_def s1_def s2_def nr p] l2
        show ?thesis by simp
      next
        case re: True
        show ?thesis
        proof (cases "i < length (m_replacers s2)")
          case False
          with unf re "1.prems" show ?thesis by simp
        next
          case i2: True
          define upper where "upper = map toupper (fst (m_replacers s2 ! i))"
          show ?thesis
          proof (cases "upper \<in> fst ` set (m_replacers s2)")
            case True
            with unf re i2 "1.prems"
            have "s' = s2\<lparr>m_replacers := erase_key upper (m_replacers s2)\<rparr>" "rd'"
              by (auto simp: upper_def Let_def)
            moreover have "length (erase_key upper (m_replacers s2)) \<le> length (m_replacers s2)"
              by (simp add: erase_key_def)
            ultimately show ?thesis using l2 by simp
          next
            case nu: False
            with unf re i2 "1.prems"
            have p: "MqttReplacers_reduce_pass oa s2 i True = Inr (s', rd')"
              by (simp add: upper_def Let_def)
            from "1.IH"(2) [OF inb it_def False str_def restart_def s1_def s2_def re i2 upper_def nu p] l2
            show ?thesis by simp
          qed
        qed
      qed
    qed
  qed
qed

text \<open>The \<^verbatim>\<open>do ... while (reduced)\<close> loop.\<close>

function MqttReplacers_reduce :: "bool \<Rightarrow> MqttReplacers \<Rightarrow> reduce_error + MqttReplacers" where
  "MqttReplacers_reduce onlyAlphanum s =
     (case MqttReplacers_reduce_pass onlyAlphanum s 0 False of
        Inl e \<Rightarrow> Inl e
      | Inr (s', reduced) \<Rightarrow> if reduced then MqttReplacers_reduce onlyAlphanum s' else Inr s')"
  by pat_completeness auto
termination
proof (relation "measure (\<lambda>(oa, s). length (m_replacers s))")
  show "wf (measure (\<lambda>(oa, s). length (m_replacers s)))" by simp
next
  fix onlyAlphanum s x2 x y
  assume "MqttReplacers_reduce_pass onlyAlphanum s 0 False = Inr x2" "(x, y) = x2" y
  then have "MqttReplacers_reduce_pass onlyAlphanum s 0 False = Inr (x, True)" by simp
  from reduce_pass_result [OF this]
  show "((onlyAlphanum, x), onlyAlphanum, s) \<in> measure (\<lambda>(oa, s). length (m_replacers s))"
    by simp
qed

subsection \<open>The read request of \<^verbatim>\<open>MqttHandler::notifyTopic\<close>\<close>

text \<open>
  The block of \<open>notifyTopic\<close> that runs once the message of a \<open>get\<close> or \<open>set\<close>
  topic is found. What it does to the message catalog and the bus is the list of its calls.
  \<open>UI_FIELD_SEPARATOR\<close> is a macro and \<open>parseInt\<close> a function of the library that
  are declared elsewhere: they are parameters, as is the boolean that
  \<open>Message::setPollPriority\<close> returns. \<open>parseInt str base lo hi\<close> is \<open>Some n\<close> when it
  sets \<open>RESULT_OK\<close>.
\<close>

datatype bus_call = SetPollPriority nat | AddPollMessage | ReadFromBus string

definition notifyTopic_read ::
  "char \<Rightarrow> (string \<Rightarrow> nat \<Rightarrow> nat \<Rightarrow> nat \<Rightarrow> nat option) \<Rightarrow> (nat \<Rightarrow> bool)
   \<Rightarrow> bool \<Rightarrow> bool \<Rightarrow> string \<Rightarrow> bus_call list" where
  "notifyTopic_read UI_FIELD_SEPARATOR parseInt setPollPriority isPassive isWrite data =
     (if \<not> isPassive then
        (if \<not> isWrite \<and> data \<noteq> [] then
           (let pos0 = find_last_of data (CHR ''?'');
                pos = (case pos0 of
                         None \<Rightarrow> None
                       | Some p \<Rightarrow> if p > 0 \<and> data ! (p - 1) \<noteq> UI_FIELD_SEPARATOR
                                   then None else Some p)
            in case pos of
                 None \<Rightarrow> [ReadFromBus data]
               | Some p \<Rightarrow>
                   (let args = drop (p + 1) data;
                        useData = take (if p > 0 then p - 1 else p) data
                    in (if args \<noteq> [] then
                          (case parseInt args 10 1 9 of
                             None \<Rightarrow> []
                           | Some pollPriority \<Rightarrow>
                               if pollPriority > 0 then
                                 SetPollPriority pollPriority
                                 # (if setPollPriority pollPriority then [AddPollMessage] else [])
                               else [])
                        else [])
                       @ [ReadFromBus useData]))
         else [ReadFromBus data])
      else [])"

subsection \<open>\<^verbatim>\<open>MqttHandler::handleTraffic\<close> and the loop of \<^verbatim>\<open>MqttHandler::run\<close>\<close>

text \<open>The status codes of the client library that the code tells apart.\<close>

datatype mosq_err =
  MOSQ_ERR_SUCCESS | MOSQ_ERR_NO_CONN | MOSQ_ERR_CONN_LOST | MOSQ_ERR_CONN_REFUSED
  | MOSQ_ERR_INVAL | MOSQ_ERR_OTHER

datatype connect_call = Mosquitto_connect | Mosquitto_reconnect

record handler_state =
  m_mosquitto :: bool
  m_connected :: bool
  m_initialConnectFailed :: bool
  m_lastErrorLogTime :: int

text \<open>
  \<open>handleTraffic\<close>: \<open>loop_ret\<close> is what \<^verbatim>\<open>mosquitto_loop\<close> returns, \<open>conn_ret\<close>
  what the connect or reconnect call returns when it is made, \<open>now\<close> the clock read for
  the error log. The result is the returned boolean, the handler's fields, and the
  connection attempt made, if any.
\<close>

definition handleTraffic ::
  "handler_state \<Rightarrow> bool \<Rightarrow> mosq_err \<Rightarrow> mosq_err \<Rightarrow> int
   \<Rightarrow> bool \<times> handler_state \<times> connect_call option" where
  "handleTraffic h allowReconnect loop_ret conn_ret now =
     (if \<not> m_mosquitto h then (False, h, None)
      else
        (let attempt = (\<not> m_connected h
                        \<and> (loop_ret = MOSQ_ERR_NO_CONN \<or> loop_ret = MOSQ_ERR_CONN_LOST)
                        \<and> allowReconnect);
             call = (if attempt
                     then Some (if m_initialConnectFailed h then Mosquitto_connect
                                else Mosquitto_reconnect)
                     else None);
             ret = (if attempt then conn_ret else loop_ret);
             h1 = (if attempt \<and> m_initialConnectFailed h \<and> ret = MOSQ_ERR_SUCCESS
                   then h\<lparr>m_initialConnectFailed := False\<rparr> else h);
             h2 = (if \<not> m_connected h1 \<and> ret = MOSQ_ERR_SUCCESS
                   then h1\<lparr>m_connected := True\<rparr> else h1)
         in if \<not> m_connected h2 \<or> ret = MOSQ_ERR_SUCCESS then (False, h2, call)
            else if ret = MOSQ_ERR_NO_CONN \<or> ret = MOSQ_ERR_CONN_LOST
                    \<or> ret = MOSQ_ERR_CONN_REFUSED
            then (True, h2\<lparr>m_connected := False\<rparr>, call)
            else if now > m_lastErrorLogTime h2 + 10
            then (True, h2\<lparr>m_lastErrorLogTime := now\<rparr>, call)
            else (True, h2, call)))"

text \<open>
  The variables of \<open>run\<close> that decide when a connection is attempted. Publishing the
  signal, the uptime, the definitions and the updated messages reads these variables and
  writes none of them, so it is left out.
\<close>

record run_state =
  handler :: handler_state
  start :: int
  lastTaskRun :: int
  allowReconnect :: bool

text \<open>What one iteration reads from outside: the two status codes, the clock after
  \<open>handleTraffic\<close> (\<open>t_now\<close>), the clock at the end of the periodic task
  (\<open>t_task_end\<close>), and the clock for the error log.\<close>

record tick_input =
  loop_ret :: mosq_err
  conn_ret :: mosq_err
  t_now :: int
  t_task_end :: int
  t_log :: int

text \<open>What one iteration did: the connection attempt made, and whether the branch of the
  periodic task (\<^verbatim>\<open>now > lastTaskRun+15\<close>) was taken.\<close>

record tick_event =
  attempted :: "connect_call option"
  task_ran :: bool

definition run_iteration :: "run_state \<Rightarrow> tick_input \<Rightarrow> run_state \<times> tick_event" where
  "run_iteration st inp =
     (let res = handleTraffic (handler st) (allowReconnect st) (loop_ret inp) (conn_ret inp)
                  (t_log inp);
          h' = fst (snd res);
          call = snd (snd res);
          st1 = st\<lparr>handler := h', allowReconnect := False\<rparr>;
          now = t_now inp
      in if now < start st1 then
           (st1\<lparr>lastTaskRun := now\<rparr>, \<lparr>attempted = call, task_ran = False\<rparr>)
         else if now > lastTaskRun st1 + 15 then
           (st1\<lparr>allowReconnect := True, lastTaskRun := t_task_end inp\<rparr>,
            \<lparr>attempted = call, task_ran = True\<rparr>)
         else (st1, \<lparr>attempted = call, task_ran = False\<rparr>))"

text \<open>The \<^verbatim>\<open>while (isRunning())\<close> loop over the iterations that run, and the state
  \<open>run\<close> starts it in.\<close>

fun run_loop :: "run_state \<Rightarrow> tick_input list \<Rightarrow> tick_event list" where
  "run_loop st [] = []"
| "run_loop st (inp # inps) =
     (let r = run_iteration st inp in snd r # run_loop (fst r) inps)"

definition run_init :: "handler_state \<Rightarrow> int \<Rightarrow> run_state" where
  "run_init h now = \<lparr>handler = h, start = now, lastTaskRun = now, allowReconnect = False\<rparr>"

definition run :: "handler_state \<Rightarrow> int \<Rightarrow> tick_input list \<Rightarrow> tick_event list" where
  "run h now inps = run_loop (run_init h now) inps"

section \<open>Notions used to state the properties\<close>

text \<open>The indices of the known fields of a part sequence, in order of appearance.\<close>

definition knownSeen :: "part list \<Rightarrow> nat list" where
  "knownSeen ps = map (nat \<circ> snd) (filter (\<lambda>p. 0 \<le> snd p \<and> snd p < int knownFieldCount) ps)"

text \<open>How many parts are a field of the given name (the test of \<open>has\<close>).\<close>

definition fieldCount :: "string \<Rightarrow> MqttReplacer \<Rightarrow> nat" where
  "fieldCount f r = length (filter (\<lambda>it. snd it \<ge> 0 \<and> fst it = f) (m_parts r))"

text \<open>A field part whose value is missing from the value set, or empty.\<close>

definition unresolved :: "valmap \<Rightarrow> part \<Rightarrow> bool" where
  "unresolved vals it = (snd it \<ge> 0 \<and> (vals (fst it) = None \<or> vals (fst it) = Some []))"

text \<open>The variables \<open>last\<close> and the out-parameters on entry to iteration \<open>idx\<close> of the
  loop of \<open>matchTopic\<close>; \<open>None\<close> when the loop has left before.\<close>

fun matchTopic_reach :: "part list \<Rightarrow> string \<Rightarrow> topic_outs \<Rightarrow> nat \<Rightarrow> (nat \<times> topic_outs) option" where
  "matchTopic_reach parts remain outs 0 = Some (0, outs)"
| "matchTopic_reach parts remain outs (Suc idx) =
     (case matchTopic_reach parts remain outs idx of
        None \<Rightarrow> None
      | Some (lastp, outs') \<Rightarrow>
          (if idx < length parts then
             (case matchTopic_step parts remain idx lastp outs' of
                Next lastp' outs'' \<Rightarrow> Some (lastp', outs'')
              | Return r outs'' \<Rightarrow> None
              | OutOfRange \<Rightarrow> None)
           else None))"

text \<open>The state of \<open>run\<close> on entry to iteration \<open>k\<close>.\<close>

fun run_state_at :: "run_state \<Rightarrow> tick_input list \<Rightarrow> nat \<Rightarrow> run_state" where
  "run_state_at st inps 0 = st"
| "run_state_at st [] (Suc k) = st"
| "run_state_at st (inp # inps) (Suc k) = run_state_at (fst (run_iteration st inp)) inps k"

section \<open>Auxiliary facts\<close>

subsection \<open>Searching\<close>

lemma find_SomeD: "List.find P xs = Some x \<Longrightarrow> x \<in> set xs \<and> P x"
  by (induction xs) (auto split: if_splits)

lemma find_NoneD: "List.find P xs = None \<Longrightarrow> x \<in> set xs \<Longrightarrow> \<not> P x"
  by (induction xs) (auto split: if_splits)

lemma find_str_SomeD:
  assumes "find_str s pat pos = Some i"
  shows "pos \<le> i \<and> i \<le> length s \<and> take (length pat) (drop i s) = pat"
proof -
  from find_SomeD [OF assms [unfolded find_str_def]]
  have "i \<in> set [pos ..< Suc (length s)]" and "take (length pat) (drop i s) = pat"
    by blast+
  then show ?thesis by (simp only: set_upt atLeastLessThan_iff less_Suc_eq_le)
qed

lemma find_rev_upt:
  "List.find P (rev [0 ..< n]) = Some p \<Longrightarrow> p < n \<and> P p \<and> (\<forall>j. p < j \<and> j < n \<longrightarrow> \<not> P j)"
proof (induction n)
  case 0
  then show ?case by simp
next
  case (Suc n)
  show ?case
  proof (cases "P n")
    case True
    with Suc.prems show ?thesis by auto
  next
    case False
    with Suc.prems have "List.find P (rev [0 ..< n]) = Some p" by simp
    from Suc.IH [OF this] False show ?thesis
      by (auto simp: less_Suc_eq)
  qed
qed

lemma find_last_of_SomeD:
  "find_last_of s ch = Some p \<Longrightarrow>
   p < length s \<and> s ! p = ch \<and> (\<forall>j. p < j \<and> j < length s \<longrightarrow> s ! j \<noteq> ch)"
  unfolding find_last_of_def by (rule find_rev_upt)

subsection \<open>The check of \<open>parse\<close>\<close>

lemma mask_bit: "(m AND push_bit k (1::int) \<noteq> 0) = bit m k"
  by (metis and_exp_eq_0_iff_not_bit push_bit_of_1)

lemma mask_or: "bit (m OR push_bit k (1::int)) j = (bit m j \<or> j = k)"
  by (auto simp: bit_or_iff bit_push_bit_iff bit_1_iff bit_exp_iff)

lemma knownSeen_Cons:
  "knownSeen (it # rest) =
     (if 0 \<le> snd it \<and> snd it < int knownFieldCount then nat (snd it) # knownSeen rest
      else knownSeen rest)"
  by (simp add: knownSeen_def)

lemma checkParts_iff:
  "checkParts ok nd ps m = (\<not> (ok \<and> (\<exists>p \<in> set ps. snd p \<ge> int knownFieldCount))
      \<and> \<not> (nd \<and> (\<not> distinct (knownSeen ps) \<or> (\<exists>k \<in> set (knownSeen ps). bit m k))))"
proof (induction ps arbitrary: m)
  case Nil
  show ?case by (simp add: knownSeen_def)
next
  case (Cons it rest)
  consider (lit) "snd it < 0" | (unk) "snd it \<ge> int knownFieldCount"
    | (known) "0 \<le> snd it" "snd it < int knownFieldCount"
    by linarith
  then show ?case
  proof cases
    case lit
    then show ?thesis by (simp add: Cons.IH knownSeen_Cons)
  next
    case unk
    then have step: "checkParts ok nd (it # rest) m = (\<not> ok \<and> checkParts ok nd rest m)"
      by auto
    from unk show ?thesis
      unfolding step Cons.IH knownSeen_Cons by auto
  next
    case known
    then have step: "checkParts ok nd (it # rest) m =
        (if nd then \<not> bit m (nat (snd it)) \<and> checkParts ok nd rest (m OR push_bit (nat (snd it)) 1)
         else checkParts ok nd rest m)"
      unfolding checkParts.simps Let_def mask_bit by auto
    from known show ?thesis
      unfolding step Cons.IH knownSeen_Cons mask_or by auto
  qed
qed

subsection \<open>The loop of \<open>matchTopic\<close>\<close>

lemma matchTopic_reach_loop:
  "matchTopic_reach parts remain outs idx = Some (lastp, outs') \<Longrightarrow>
   matchTopic_loop parts remain 0 0 outs = matchTopic_loop parts remain idx lastp outs'"
proof (induction idx arbitrary: lastp outs')
  case 0
  then show ?case by simp
next
  case (Suc idx)
  from Suc.prems obtain l o1 where
    r: "matchTopic_reach parts remain outs idx = Some (l, o1)"
    and i: "idx < length parts"
    and s: "matchTopic_step parts remain idx l o1 = Next lastp outs'"
    by (auto split: option.splits if_splits match_step.splits)
  have "matchTopic_loop parts remain 0 0 outs = matchTopic_loop parts remain idx l o1"
    using Suc.IH [OF r] .
  also have "\<dots> = matchTopic_loop parts remain (idx + 1) lastp outs'"
    using i s by simp
  finally show ?case by simp
qed

lemma matchTopic_reach_bound:
  "matchTopic_reach parts remain outs idx = Some (lastp, outs') \<Longrightarrow> idx < length parts \<Longrightarrow>
   lastp \<le> length remain"
proof (induction idx arbitrary: lastp outs')
  case 0
  then show ?case by simp
next
  case (Suc idx)
  from Suc.prems obtain l o1 where
    r: "matchTopic_reach parts remain outs idx = Some (l, o1)"
    and i: "idx < length parts"
    and s: "matchTopic_step parts remain idx l o1 = Next lastp outs'"
    by (auto split: option.splits if_splits match_step.splits)
  have l: "l \<le> length remain" using Suc.IH [OF r i] .
  show ?case
  proof (cases "snd (parts ! idx) < 0")
    case True
    with s l have t: "take (length (fst (parts ! idx))) (drop l remain) = fst (parts ! idx)"
      and lp: "lastp = l + length (fst (parts ! idx))"
      by (auto simp: matchTopic_step_def substr_def Let_def split: if_splits)
    have "length (take (length (fst (parts ! idx))) (drop l remain)) \<le> length remain - l"
      by simp
    then have "length (fst (parts ! idx)) \<le> length remain - l"
      unfolding t .
    with l lp show ?thesis by simp
  next
    case False
    with s Suc.prems(2) obtain pos where
      f: "find_str remain (fst (parts ! (idx + 1))) l = Some pos"
      and lp: "lastp = l + length (take (pos - l) (drop l remain))"
      by (auto simp: matchTopic_step_def substr_def Let_def split: if_splits option.splits)
    from find_str_SomeD [OF f] have "l \<le> pos" "pos \<le> length remain" by auto
    with lp show ?thesis by simp
  qed
qed

text \<open>The exception of \<^verbatim>\<open>substr\<close> is never raised: \<open>matchTopic\<close> always returns.\<close>

lemma matchTopic_step_bound:
  assumes "idx < length parts" and "lastp \<le> length remain"
  shows "matchTopic_step parts remain idx lastp outs \<noteq> OutOfRange"
    and "matchTopic_step parts remain idx lastp outs = Next l' o' \<Longrightarrow>
         l' \<le> length remain \<or> length parts \<le> idx + 1"
proof -
  show "matchTopic_step parts remain idx lastp outs \<noteq> OutOfRange"
    using assms
    by (auto simp: matchTopic_step_def substr_def Let_def split: option.splits dest: find_str_SomeD)
next
  assume s: "matchTopic_step parts remain idx lastp outs = Next l' o'"
  show "l' \<le> length remain \<or> length parts \<le> idx + 1"
  proof (cases "snd (parts ! idx) < 0")
    case True
    with s assms have t: "take (length (fst (parts ! idx))) (drop lastp remain) = fst (parts ! idx)"
      and lp: "l' = lastp + length (fst (parts ! idx))"
      by (auto simp: matchTopic_step_def substr_def Let_def split: if_splits)
    have "length (take (length (fst (parts ! idx))) (drop lastp remain)) \<le> length remain - lastp"
      by simp
    then have "length (fst (parts ! idx)) \<le> length remain - lastp"
      unfolding t .
    with assms lp show ?thesis by linarith
  next
    case False
    show ?thesis
    proof (cases "idx + 1 < length parts")
      case True
      with s False assms obtain pos where
        f: "find_str remain (fst (parts ! (idx + 1))) lastp = Some pos"
        and lp: "l' = lastp + length (take (pos - lastp) (drop lastp remain))"
        by (auto simp: matchTopic_step_def substr_def Let_def split: if_splits option.splits)
      from find_str_SomeD [OF f] have "lastp \<le> pos" "pos \<le> length remain" by auto
      with lp have "l' = pos" by simp
      with \<open>pos \<le> length remain\<close> show ?thesis by simp
    next
      case False
      then show ?thesis by simp
    qed
  qed
qed

lemma matchTopic_loop_returns:
  "lastp \<le> length remain \<or> length parts \<le> idx \<Longrightarrow>
   matchTopic_loop parts remain idx lastp outs \<noteq> None"
proof (induction parts remain idx lastp outs rule: matchTopic_loop.induct)
  case (1 parts remain idx lastp outs)
  show ?case
  proof (cases "idx < length parts")
    case False
    then show ?thesis by simp
  next
    case True
    with "1.prems" have l: "lastp \<le> length remain" by simp
    show ?thesis
    proof (cases "matchTopic_step parts remain idx lastp outs")
      case (Return r o')
      with True show ?thesis by simp
    next
      case (Next l' o')
      from matchTopic_step_bound(2) [OF True l Next]
      have "l' \<le> length remain \<or> length parts \<le> idx + 1" .
      from "1.IH" [OF True Next this] True Next show ?thesis by simp
    next
      case OutOfRange
      with matchTopic_step_bound(1) [OF True l] show ?thesis by simp
    qed
  qed
qed

lemma matchTopic_returns: "\<exists>res. matchTopic r remain outs = Some res"
  using matchTopic_loop_returns [of 0 remain "m_parts r" 0 outs]
  by (auto simp: matchTopic_def)

text \<open>What the returned number says: a negative number \<open>- idx - 1\<close> names a field part,
  a number below the count of the parts names a literal part that did not match.\<close>

lemma matchTopic_step_Return:
  assumes "matchTopic_step parts remain idx lastp outs = Return res o'"
  shows "(res = int idx \<and> snd (parts ! idx) < 0) \<or> (res = - int idx - 1 \<and> 0 \<le> snd (parts ! idx))"
  using assms
  by (auto simp: matchTopic_step_def Let_def split: if_splits option.splits)

lemma matchTopic_loop_result:
  "matchTopic_loop parts remain idx lastp outs = Some (res, o') \<Longrightarrow> idx \<le> length parts \<Longrightarrow>
   (0 \<le> res \<and> int idx \<le> res \<and> res \<le> int (length parts)
      \<and> (res < int (length parts) \<longrightarrow> snd (parts ! nat res) < 0))
   \<or> (res < 0 \<and> idx \<le> nat (- res - 1) \<and> nat (- res - 1) < length parts
      \<and> 0 \<le> snd (parts ! nat (- res - 1)))"
proof (induction parts remain idx lastp outs rule: matchTopic_loop.induct)
  case (1 parts remain idx lastp outs)
  show ?case
  proof (cases "idx < length parts")
    case False
    with "1.prems" have "res = int idx" "idx = length parts" by simp_all
    then show ?thesis by simp
  next
    case True
    show ?thesis
    proof (cases "matchTopic_step parts remain idx lastp outs")
      case (Return r o1)
      with True "1.prems" have "r = res" by simp
      with matchTopic_step_Return [OF Return] True show ?thesis by auto
    next
      case (Next l' o1)
      with True "1.prems" have "matchTopic_loop parts remain (idx + 1) l' o1 = Some (res, o')"
        by simp
      from "1.IH" [OF True Next this] True show ?thesis by auto
    next
      case OutOfRange
      with True "1.prems" show ?thesis by simp
    qed
  qed
qed

lemma matchTopic_result:
  assumes "matchTopic r remain outs = Some (res, o')"
  shows "if res < 0 then nat (- res - 1) < length (m_parts r) \<and> 0 \<le> snd (m_parts r ! nat (- res - 1))
         else res \<le> int (length (m_parts r))
              \<and> (res < int (length (m_parts r)) \<longrightarrow> snd (m_parts r ! nat res) < 0)"
  using matchTopic_loop_result [OF assms [unfolded matchTopic_def]] by auto

subsection \<open>\<open>reduce\<close> and \<open>ensureDefault\<close>\<close>

lemma reduce_loop_unresolved:
  assumes "\<exists>it \<in> set ps. unresolved vals it"
  shows "reduce_loop vals True oa ps ret =
     (\<exists>it. List.find (unresolved vals) ps = Some it \<and> vals (fst it) = Some [], [])"
  using assms
proof (induction ps arbitrary: ret)
  case Nil
  then show ?case by simp
next
  case (Cons it rest)
  show ?case
  proof (cases "unresolved vals it")
    case True
    then show ?thesis by (auto simp: unresolved_def)
  next
    case False
    with Cons.prems have "\<exists>it \<in> set rest. unresolved vals it" by auto
    from Cons.IH [OF this] False show ?thesis
      by (auto simp: unresolved_def split: option.splits)
  qed
qed

lemma fieldCount_has: "has r f = (fieldCount f r \<noteq> 0)"
  by (auto simp: has_def fieldCount_def filter_empty_conv)

subsection \<open>The loop of \<open>run\<close>\<close>

lemma handleTraffic_call:
  "snd (snd (handleTraffic h ar lr cr now)) =
     (if m_mosquitto h \<and> \<not> m_connected h
         \<and> (lr = MOSQ_ERR_NO_CONN \<or> lr = MOSQ_ERR_CONN_LOST) \<and> ar
      then Some (if m_initialConnectFailed h then Mosquitto_connect else Mosquitto_reconnect)
      else None)"
proof (cases "m_mosquitto h")
  case False
  then show ?thesis by (simp add: handleTraffic_def)
next
  case m: True
  define attempt where
    "attempt = (\<not> m_connected h \<and> (lr = MOSQ_ERR_NO_CONN \<or> lr = MOSQ_ERR_CONN_LOST) \<and> ar)"
  define call where "call = (if attempt
                     then Some (if m_initialConnectFailed h then Mosquitto_connect
                                else Mosquitto_reconnect)
                     else None)"
  have "snd (snd (handleTraffic h ar lr cr now)) = call"
    using m unfolding handleTraffic_def attempt_def [symmetric] Let_def call_def [symmetric]
    by (simp only: if_False if_True not_True_eq_False not_False_eq_True snd_conv if_distrib [of snd] if_cancel)
  then show ?thesis using m by (simp add: call_def attempt_def)
qed

lemma run_iteration_event:
  "attempted (snd (run_iteration st inp)) =
     snd (snd (handleTraffic (handler st) (allowReconnect st) (loop_ret inp) (conn_ret inp) (t_log inp)))"
  unfolding run_iteration_def Let_def by simp

lemma run_iteration_attempt:
  "attempted (snd (run_iteration st inp)) = Some c \<Longrightarrow>
   allowReconnect st \<and> m_mosquitto (handler st) \<and> \<not> m_connected (handler st)
   \<and> (loop_ret inp = MOSQ_ERR_NO_CONN \<or> loop_ret inp = MOSQ_ERR_CONN_LOST)
   \<and> c = (if m_initialConnectFailed (handler st) then Mosquitto_connect else Mosquitto_reconnect)"
  unfolding run_iteration_event handleTraffic_call by (simp split: if_splits)

lemma run_iteration_flag:
  "allowReconnect (fst (run_iteration st inp)) =
     (start st \<le> t_now inp \<and> lastTaskRun st + 15 < t_now inp)"
  "task_ran (snd (run_iteration st inp)) =
     (start st \<le> t_now inp \<and> lastTaskRun st + 15 < t_now inp)"
  by (auto simp: run_iteration_def Let_def)

lemma run_loop_attempt:
  "k < length inps \<Longrightarrow> attempted (run_loop st inps ! k) = Some c \<Longrightarrow>
   (let st' = run_state_at st inps k in
      allowReconnect st' \<and> m_mosquitto (handler st') \<and> \<not> m_connected (handler st')
      \<and> (loop_ret (inps ! k) = MOSQ_ERR_NO_CONN \<or> loop_ret (inps ! k) = MOSQ_ERR_CONN_LOST)
      \<and> c = (if m_initialConnectFailed (handler st') then Mosquitto_connect else Mosquitto_reconnect))"
proof (induction inps arbitrary: st k)
  case Nil
  then show ?case by simp
next
  case (Cons inp inps)
  show ?case
  proof (cases k)
    case 0
    with Cons.prems run_iteration_attempt [of st inp c] show ?thesis
      by (simp add: Let_def)
  next
    case (Suc j)
    with Cons.prems Cons.IH [of j "fst (run_iteration st inp)"] show ?thesis
      by (simp add: Let_def)
  qed
qed

lemma run_state_at_flag:
  "k < length inps \<Longrightarrow>
   allowReconnect (run_state_at st inps (Suc k)) =
     (start (run_state_at st inps k) \<le> t_now (inps ! k)
      \<and> lastTaskRun (run_state_at st inps k) + 15 < t_now (inps ! k))
   \<and> task_ran (run_loop st inps ! k) =
     (start (run_state_at st inps k) \<le> t_now (inps ! k)
      \<and> lastTaskRun (run_state_at st inps k) + 15 < t_now (inps ! k))"
proof (induction inps arbitrary: st k)
  case Nil
  then show ?case by simp
next
  case (Cons inp inps)
  show ?case
  proof (cases k)
    case 0
    then show ?thesis using run_iteration_flag [of st inp] by (simp add: Let_def)
  next
    case (Suc j)
    with Cons.prems Cons.IH [of j "fst (run_iteration st inp)"] show ?thesis
      by (simp add: Let_def)
  qed
qed


lemma run_state_at_Suc:
  "k < length inps \<Longrightarrow>
   run_state_at st inps (Suc k) = fst (run_iteration (run_state_at st inps k) (inps ! k))"
proof (induction inps arbitrary: st k)
  case Nil
  then show ?case by simp
next
  case (Cons inp inps)
  then show ?case by (cases k) simp_all
qed

lemma run_iteration_lastTaskRun:
  "start st \<le> t_now inp \<Longrightarrow> lastTaskRun st + 15 < t_now inp \<Longrightarrow>
   lastTaskRun (fst (run_iteration st inp)) = t_task_end inp"
  by (simp add: run_iteration_def Let_def)

lemma run_iteration_start: "start (fst (run_iteration st inp)) = start st"
  by (simp add: run_iteration_def Let_def)

subsection \<open>The fixed point of \<open>MqttReplacers::reduce\<close>\<close>

text \<open>When \<open>reduce\<close> returns, a second call changes nothing, and no template that is
  left can be folded.\<close>

lemma isReducable_reduce_loop:
  "isReducable_loop vals ps \<Longrightarrow> fst (reduce_loop vals e oa ps ret)"
  by (induction ps arbitrary: ret) (auto split: option.splits if_splits)

lemma reduce_fixed_point:
  "MqttReplacers_reduce oa s = Inr s' \<Longrightarrow> MqttReplacers_reduce oa s' = Inr s'"
proof (induction oa s rule: MqttReplacers_reduce.induct)
  case (1 oa s)
  from "1.prems" obtain s1 rd where p: "MqttReplacers_reduce_pass oa s 0 False = Inr (s1, rd)"
    by (cases "MqttReplacers_reduce_pass oa s 0 False") (auto split: sum.splits)
  show ?case
  proof (cases rd)
    case True
    with p "1.prems" have "MqttReplacers_reduce oa s1 = Inr s'" by simp
    from "1.IH" [OF p refl True this] show ?thesis .
  next
    case False
    with p "1.prems" have e: "s' = s1" by simp
    from reduce_pass_result [OF p] False have "s1 = s" by simp
    with e p False show ?thesis by simp
  qed
qed

lemma reduce_length:
  "MqttReplacers_reduce oa s = Inr s' \<Longrightarrow> length (m_replacers s') \<le> length (m_replacers s)"
proof (induction oa s rule: MqttReplacers_reduce.induct)
  case (1 oa s)
  from "1.prems" obtain s1 rd where p: "MqttReplacers_reduce_pass oa s 0 False = Inr (s1, rd)"
    by (cases "MqttReplacers_reduce_pass oa s 0 False") (auto split: sum.splits)
  from reduce_pass_result [OF p]
  have l: "length (m_replacers s1) \<le> length (m_replacers s)" by simp
  show ?case
  proof (cases rd)
    case True
    with p "1.prems" have "MqttReplacers_reduce oa s1 = Inr s'" by simp
    from "1.IH" [OF p refl True this] l show ?thesis by simp
  next
    case False
    with p "1.prems" l show ?thesis by simp
  qed
qed

lemma reduce_none_reducible:
  assumes "MqttReplacers_reduce oa s = Inr s'" and "it \<in> set (m_replacers s')"
  shows "\<not> (isReducable (snd it) (m_constants s') \<and> fst (reduce (snd it) (m_constants s') oa))"
proof -
  from reduce_fixed_point [OF assms(1)]
  have "MqttReplacers_reduce oa s' = Inr s'" .
  then obtain s1 rd where p: "MqttReplacers_reduce_pass oa s' 0 False = Inr (s1, rd)"
    by (cases "MqttReplacers_reduce_pass oa s' 0 False") (auto split: sum.splits)
  have "\<not> rd"
  proof
    assume rd
    with reduce_pass_result [OF p]
    have l: "length (m_replacers s1) < length (m_replacers s')" by simp
    from \<open>rd\<close> p \<open>MqttReplacers_reduce oa s' = Inr s'\<close>
    have "MqttReplacers_reduce oa s1 = Inr s'" by simp
    from reduce_length [OF this]
    have "length (m_replacers s') \<le> length (m_replacers s1)" .
    with l show False by simp
  qed
  with reduce_pass_result [OF p] assms(2) show ?thesis
    by (auto simp: in_set_conv_nth)
qed

lemma reduce_leaves_unreducible:
  assumes "MqttReplacers_reduce oa s = Inr s'" and "it \<in> set (m_replacers s')"
  shows "\<not> isReducable (snd it) (m_constants s')"
  using reduce_none_reducible [OF assms] isReducable_reduce_loop
  by (auto simp: isReducable_def reduce_def)

section \<open>Properties\<close>

text \<open>
  C1. Rendering a topic template with \<open>get\<close> and matching the rendered topic with
  \<open>matchTopic\<close> should give back the circuit and name that were rendered. For the
  template \<^verbatim>\<open>ebusd/%circuit/%name\<close> with circuit \<^verbatim>\<open>heating\<close> and name
  \<^verbatim>\<open>temp\<close> the code renders \<^verbatim>\<open>ebusd/heating/temp\<close>, and \<open>matchTopic\<close> then
  returns the whole topic as the name: for a field that is the last part it assigns
  \<^verbatim>\<open>value = remain\<close>, the complete string, and not the rest from \<open>last\<close>.
\<close>

theorem matchTopic_last_field_is_whole_topic:
  "get \<lparr>m_parts = scanTemplate ''ebusd/%circuit/%name'', m_emptyIfMissing = False\<rparr>
       [''circuit'' \<mapsto> ''heating'', ''name'' \<mapsto> ''temp''] False False
     = ''ebusd/heating/temp''
   \<and> matchTopic \<lparr>m_parts = scanTemplate ''ebusd/%circuit/%name'', m_emptyIfMissing = False\<rparr>
       ''ebusd/heating/temp'' \<lparr>out_circuit = [], out_name = [], out_field = []\<rparr>
     = Some (4, \<lparr>out_circuit = ''heating'', out_name = ''ebusd/heating/temp'',
                 out_field = []\<rparr>)"
  by code_simp

text \<open>
  C2 (amended). \<open>parse\<close> fails exactly when \<open>onlyKnown\<close> is set and a field that is
  not a known one appears, or \<open>noKnownDuplicates\<close> is set and a known field appears
  twice. It then returns false and leaves \<open>m_emptyIfMissing\<close> as it was, but the parts
  sequence is not the one from before the call: it holds the parts scanned from the
  template string.
\<close>

theorem parse_failure:
  "parse r templateStr onlyKnown noKnownDuplicates emptyIfMissing = (False, r') \<longleftrightarrow>
     r' = r\<lparr>m_parts := scanTemplate templateStr\<rparr>
     \<and> ((onlyKnown \<and> (\<exists>p \<in> set (scanTemplate templateStr). snd p \<ge> int knownFieldCount))
        \<or> (noKnownDuplicates \<and> \<not> distinct (knownSeen (scanTemplate templateStr))))"
proof -
  have "checkParts onlyKnown noKnownDuplicates (scanTemplate templateStr) 0 =
     (\<not> (onlyKnown \<and> (\<exists>p \<in> set (scanTemplate templateStr). snd p \<ge> int knownFieldCount))
      \<and> \<not> (noKnownDuplicates \<and> \<not> distinct (knownSeen (scanTemplate templateStr))))"
    unfolding checkParts_iff by simp
  then show ?thesis
    unfolding parse_def Let_def by auto
qed

theorem parse_failure_witness:
  "parse \<lparr>m_parts = [(''ebusd/'', - 1)], m_emptyIfMissing = False\<rparr>
         ''%circuit/%circuit'' False True True
     = (False, \<lparr>m_parts = [(''circuit'', 0), (''/'', - 1), (''circuit'', 0)],
                 m_emptyIfMissing = False\<rparr>)"
proof -
  have "scanTemplate ''%circuit/%circuit'' = [(''circuit'', 0), (''/'', - 1), (''circuit'', 0)]"
    by code_simp
  moreover have "\<not> distinct (knownSeen [(''circuit'', 0), (''/'', - 1), (''circuit'', 0)])"
    by code_simp
  ultimately show ?thesis
    using parse_failure [of "\<lparr>m_parts = [(''ebusd/'', - 1)], m_emptyIfMissing = False\<rparr>"
        "''%circuit/%circuit''" False True True
        "\<lparr>m_parts = [(''circuit'', 0), (''/'', - 1), (''circuit'', 0)],
           m_emptyIfMissing = False\<rparr>"]
    by simp
qed

theorem parse_failure_counterexample:
  "fst (parse \<lparr>m_parts = [(''ebusd/'', - 1)], m_emptyIfMissing = False\<rparr>
          ''%foo'' True False True) = False
   \<and> m_parts (snd (parse \<lparr>m_parts = [(''ebusd/'', - 1)], m_emptyIfMissing = False\<rparr>
          ''%foo'' True False True)) = [(''foo'', 3)]
   \<and> m_parts (snd (parse \<lparr>m_parts = [(''ebusd/'', - 1)], m_emptyIfMissing = False\<rparr>
          ''%foo'' True False True))
       \<noteq> m_parts \<lparr>m_parts = [(''ebusd/'', - 1)], m_emptyIfMissing = False\<rparr>"
  by code_simp

text \<open>
  C3 (amended). When the loop of \<open>matchTopic\<close> comes to a literal part that the
  candidate does not start with at the current offset, matching stops and the function
  returns the index of that part, which is not negative: it is the number of parts
  matched before it. The out-parameters keep what the parts before it have assigned. (Only
  the failures at a field part return a negative number, \<open>- idx - 1\<close>: this is
  \<open>matchTopic_result\<close> above.)
\<close>

theorem matchTopic_literal_mismatch:
  assumes "matchTopic_reach (m_parts r) remain outs idx = Some (lastp, outs')"
    and "idx < length (m_parts r)"
    and "snd (m_parts r ! idx) < 0"
    and "take (length (fst (m_parts r ! idx))) (drop lastp remain) \<noteq> fst (m_parts r ! idx)"
  shows "matchTopic r remain outs = Some (int idx, outs')"
proof -
  have "lastp \<le> length remain"
    using matchTopic_reach_bound [OF assms(1,2)] .
  then have "matchTopic_step (m_parts r) remain idx lastp outs' = Return (int idx) outs'"
    using assms(3,4) by (simp add: matchTopic_step_def substr_def Let_def)
  then have "matchTopic_loop (m_parts r) remain idx lastp outs' = Some (int idx, outs')"
    using assms(2) by simp
  then show ?thesis
    unfolding matchTopic_def using matchTopic_reach_loop [OF assms(1)] by simp
qed

theorem matchTopic_literal_mismatch_witness:
  "matchTopic \<lparr>m_parts = [(''a'', - 1), (''%b'', - 1)], m_emptyIfMissing = False\<rparr> ''ac''
       \<lparr>out_circuit = [], out_name = [], out_field = []\<rparr>
     = Some (1, \<lparr>out_circuit = [], out_name = [], out_field = []\<rparr>)"
proof -
  have "matchTopic_reach [(''a'', - 1), (''%b'', - 1)] ''ac''
          \<lparr>out_circuit = [], out_name = [], out_field = []\<rparr> 1
        = Some (1, \<lparr>out_circuit = [], out_name = [], out_field = []\<rparr>)"
    by code_simp
  from matchTopic_literal_mismatch
         [of "\<lparr>m_parts = [(''a'', - 1), (''%b'', - 1)], m_emptyIfMissing = False\<rparr>" "''ac''"
             "\<lparr>out_circuit = [], out_name = [], out_field = []\<rparr>" 1 1
             "\<lparr>out_circuit = [], out_name = [], out_field = []\<rparr>"] this
  show ?thesis by simp
qed

theorem matchTopic_literal_mismatch_counterexample:
  "scanTemplate ''a%%b'' = [(''a'', - 1), (''%b'', - 1)]
   \<and> matchTopic_reach (scanTemplate ''a%%b'') ''ac''
         \<lparr>out_circuit = [], out_name = [], out_field = []\<rparr> 1
       = Some (1, \<lparr>out_circuit = [], out_name = [], out_field = []\<rparr>)
   \<and> snd (scanTemplate ''a%%b'' ! 1) < 0
   \<and> substr ''ac'' 1 (length (fst (scanTemplate ''a%%b'' ! 1))) = Some ''c''
   \<and> fst (scanTemplate ''a%%b'' ! 1) = ''%b''
   \<and> matchTopic \<lparr>m_parts = scanTemplate ''a%%b'', m_emptyIfMissing = False\<rparr> ''ac''
         \<lparr>out_circuit = [], out_name = [], out_field = []\<rparr>
       = Some (1, \<lparr>out_circuit = [], out_name = [], out_field = []\<rparr>)
   \<and> (1 :: int) \<noteq> - 1"
  by code_simp

text \<open>
  C4 (amended). For a template whose \<open>emptyIfMissing\<close> flag is set and a value set in
  which some referenced field is missing or has an empty value, \<open>reduce\<close> leaves the empty
  string in its result. It returns true when the first such field, in the order of the
  parts, is present with an empty value, and false when that field is missing.
\<close>

theorem reduce_emptyIfMissing:
  assumes "m_emptyIfMissing r" and "\<exists>it \<in> set (m_parts r). unresolved vals it"
  shows "reduce r vals onlyAlphanum =
     (\<exists>it. List.find (unresolved vals) (m_parts r) = Some it \<and> vals (fst it) = Some [], [])"
  using assms by (simp add: reduce_def reduce_loop_unresolved)

theorem reduce_emptyIfMissing_witness:
  "reduce \<lparr>m_parts = [(''temp '', - 1), (''unit'', 3)], m_emptyIfMissing = True\<rparr>
       [''unit'' \<mapsto> []] False = (True, [])"
proof -
  have u: "unresolved [''unit'' \<mapsto> []] (''unit'', 3)"
    by (simp add: unresolved_def)
  have f: "List.find (unresolved [''unit'' \<mapsto> []]) [(''temp '', - 1), (''unit'', 3)]
      = Some (''unit'', 3)"
    by (simp add: unresolved_def)
  from reduce_emptyIfMissing
         [of "\<lparr>m_parts = [(''temp '', - 1), (''unit'', 3)], m_emptyIfMissing = True\<rparr>"
             "[''unit'' \<mapsto> []]" False] u
  show ?thesis unfolding MqttReplacer.simps f by simp
qed

theorem reduce_emptyIfMissing_counterexample:
  "scanTemplate ''temp %unit'' = [(''temp '', - 1), (''unit'', 3)]
   \<and> reduce \<lparr>m_parts = scanTemplate ''temp %unit'', m_emptyIfMissing = True\<rparr> Map.empty False
       = (False, [])"
  by code_simp

text \<open>
  C5 (amended). After \<open>ensureDefault\<close> the part sequence contains a circuit field and a
  name field. It contains each exactly once when the template held it at most once before
  the call; a field that the template held several times is held as many times after it:
  the number of circuit fields, and of name fields, is the greater of one and the number
  before the call.
\<close>

theorem ensureDefault_counts:
  "fieldCount ''circuit'' (ensureDefault PACKAGE r) = max 1 (fieldCount ''circuit'' r) \<and>
   fieldCount ''name'' (ensureDefault PACKAGE r) = max 1 (fieldCount ''name'' r)"
proof -
  define r1 where "r1 = (if m_parts r = [] then r\<lparr>m_parts := [(PACKAGE @ ''/'', - 1)]\<rparr>
                else if length (m_parts r) = 1 \<and> snd (m_parts r ! 0) < 0
                        \<and> find_char (fst (m_parts r ! 0)) (CHR ''/'') 0 = None
                     then r\<lparr>m_parts := (m_parts r)[0 := (fst (m_parts r ! 0) @ ''/'', - 1)]\<rparr>
                else r)"
  have c1: "fieldCount f r1 = fieldCount f r" for f
  proof (cases "m_parts r")
    case Nil
    then show ?thesis by (simp add: r1_def fieldCount_def)
  next
    case (Cons a list)
    then show ?thesis by (cases list) (auto simp: r1_def fieldCount_def)
  qed
  define r2 where "r2 = (if \<not> has r1 ''circuit''
                then r1\<lparr>m_parts := m_parts r1 @ [(''circuit'', 0), (''/'', - 1)]\<rparr> else r1)"
  have c2: "fieldCount ''circuit'' r2 = max 1 (fieldCount ''circuit'' r)"
    and n2: "fieldCount ''name'' r2 = fieldCount ''name'' r"
    using c1 [of "''circuit''"] c1 [of "''name''"]
    by (auto simp: r2_def fieldCount_has) (auto simp: fieldCount_def)
  have e: "ensureDefault PACKAGE r =
      (if \<not> has r2 ''name'' then r2\<lparr>m_parts := m_parts r2 @ [(''name'', 1)]\<rparr> else r2)"
    by (simp add: ensureDefault_def r1_def r2_def Let_def)
  show ?thesis
    using c2 n2 unfolding e by (auto simp: fieldCount_has) (auto simp: fieldCount_def)
qed

theorem ensureDefault_counts_witness:
  "fieldCount ''circuit'' (ensureDefault ''ebusd'' \<lparr>m_parts = [], m_emptyIfMissing = False\<rparr>) = 1
   \<and> fieldCount ''name'' (ensureDefault ''ebusd'' \<lparr>m_parts = [], m_emptyIfMissing = False\<rparr>) = 1"
  using ensureDefault_counts [of "''ebusd''" "\<lparr>m_parts = [], m_emptyIfMissing = False\<rparr>"]
  by (simp add: fieldCount_def)

theorem ensureDefault_counts_counterexample:
  "scanTemplate ''%circuit/%circuit'' = [(''circuit'', 0), (''/'', - 1), (''circuit'', 0)]
   \<and> m_parts (ensureDefault ''ebusd''
         \<lparr>m_parts = scanTemplate ''%circuit/%circuit'', m_emptyIfMissing = False\<rparr>)
       = [(''circuit'', 0), (''/'', - 1), (''circuit'', 0), (''name'', 1)]
   \<and> fieldCount ''circuit'' (ensureDefault ''ebusd''
         \<lparr>m_parts = scanTemplate ''%circuit/%circuit'', m_emptyIfMissing = False\<rparr>) = 2"
  by code_simp

text \<open>
  C6. \<open>MqttReplacers::reduce\<close> should end at a fixed point for every store. Take the
  constant \<^verbatim>\<open>prefix\<close>, the topic template under \<^verbatim>\<open>mqtttopic\<close> and the template
  \<^verbatim>\<open>topic = %prefix/x\<close>. The pass skips \<^verbatim>\<open>mqtttopic\<close> and folds \<^verbatim>\<open>topic\<close>;
  \<open>set\<close> asks for a restart (the key has an upper-case mirror); the erased entry was the
  last one, and the code reads \<^verbatim>\<open>it->first\<close> through \<^verbatim>\<open>end()\<close>: the iterator was
  moved to the next entry before the key was read. (Whenever \<open>reduce\<close> does return, a
  second call changes nothing and no template that is left can be folded: these are
  \<open>reduce_fixed_point\<close> and \<open>reduce_leaves_unreducible\<close> above.)
\<close>

theorem reduce_reads_end_iterator:
  "MqttReplacers_reduce False
     \<lparr>m_constants = [''prefix'' \<mapsto> ''ebusd''],
      m_replacers =
        [(''mqtttopic'', \<lparr>m_parts = scanTemplate ''ebusd/%circuit/%name'',
                            m_emptyIfMissing = False\<rparr>),
         (''topic'', \<lparr>m_parts = scanTemplate ''%prefix/x'', m_emptyIfMissing = False\<rparr>)]\<rparr>
   = Inl EndIteratorDereferenced"
proof -
  have "isl (MqttReplacers_reduce False
     \<lparr>m_constants = [''prefix'' \<mapsto> ''ebusd''],
      m_replacers =
        [(''mqtttopic'', \<lparr>m_parts = scanTemplate ''ebusd/%circuit/%name'',
                            m_emptyIfMissing = False\<rparr>),
         (''topic'', \<lparr>m_parts = scanTemplate ''%prefix/x'', m_emptyIfMissing = False\<rparr>)]\<rparr>)"
    by code_simp
  then obtain e where "MqttReplacers_reduce False
     \<lparr>m_constants = [''prefix'' \<mapsto> ''ebusd''],
      m_replacers =
        [(''mqtttopic'', \<lparr>m_parts = scanTemplate ''ebusd/%circuit/%name'',
                            m_emptyIfMissing = False\<rparr>),
         (''topic'', \<lparr>m_parts = scanTemplate ''%prefix/x'', m_emptyIfMissing = False\<rparr>)]\<rparr>
       = Inl e"
    by (auto simp: isl_def)
  then show ?thesis by (cases e) simp
qed



text \<open>
  C8. For a message that is not passive and a \<open>get\<close> topic, the payload \<^verbatim>\<open>?5\<close>
  makes the dispatcher set the poll priority of the message to 5 and read from the bus
  with an empty payload (given that \<open>parseInt\<close> reads \<^verbatim>\<open>5\<close> as 5). In general a poll
  priority is only set from the text after the last \<^verbatim>\<open>?\<close> of the payload of a
  \<open>get\<close>, and only when that \<^verbatim>\<open>?\<close> is at position 0 or follows the field separator;
  the payload passed to the bus then ends before the separator, so the suffix never
  reaches the bus.
\<close>

theorem notifyTopic_poll_priority:
  "(parseInt ''5'' 10 1 9 = Some 5 \<longrightarrow>
      notifyTopic_read sep parseInt spp False False ''?5''
        = SetPollPriority 5 # (if spp 5 then [AddPollMessage] else []) @ [ReadFromBus []])
   \<and> (SetPollPriority p \<in> set (notifyTopic_read sep parseInt spp isPassive isWrite data) \<longrightarrow>
        \<not> isPassive \<and> \<not> isWrite \<and>
        (\<exists>pos. find_last_of data (CHR ''?'') = Some pos
           \<and> pos < length data \<and> data ! pos = CHR ''?''
           \<and> (\<forall>j. pos < j \<and> j < length data \<longrightarrow> data ! j \<noteq> CHR ''?'')
           \<and> (pos = 0 \<or> data ! (pos - 1) = sep)
           \<and> parseInt (drop (pos + 1) data) 10 1 9 = Some p \<and> 0 < p
           \<and> ReadFromBus (take (pos - 1) data)
               \<in> set (notifyTopic_read sep parseInt spp isPassive isWrite data)
           \<and> ReadFromBus data \<notin> set (notifyTopic_read sep parseInt spp isPassive isWrite data)))"
proof (rule conjI; rule impI)
  assume "parseInt ''5'' 10 1 9 = Some 5"
  then show "notifyTopic_read sep parseInt spp False False ''?5''
        = SetPollPriority 5 # (if spp 5 then [AddPollMessage] else []) @ [ReadFromBus []]"
    by (simp add: notifyTopic_read_def find_last_of_def)
next
  assume a: "SetPollPriority p \<in> set (notifyTopic_read sep parseInt spp isPassive isWrite data)"
  then have ne: "data \<noteq> []" and np: "\<not> isPassive" and nw: "\<not> isWrite"
    by (auto simp: notifyTopic_read_def Let_def split: if_splits)
  define prio where "prio args = (if args \<noteq> [] then
                          (case parseInt args 10 1 9 of
                             None \<Rightarrow> []
                           | Some pollPriority \<Rightarrow>
                               if pollPriority > 0 then
                                 SetPollPriority pollPriority
                                 # (if spp pollPriority then [AddPollMessage] else [])
                               else [])
                        else [])" for args
  have eq: "notifyTopic_read sep parseInt spp isPassive isWrite data =
      (case find_last_of data (CHR ''?'') of
         None \<Rightarrow> [ReadFromBus data]
       | Some q \<Rightarrow> if q > 0 \<and> data ! (q - 1) \<noteq> sep then [ReadFromBus data]
                   else prio (drop (q + 1) data) @ [ReadFromBus (take (q - 1) data)])"
    using ne np nw by (simp add: notifyTopic_read_def Let_def prio_def split: option.splits)
  obtain pos where f: "find_last_of data (CHR ''?'') = Some pos"
  proof (cases "find_last_of data (CHR ''?'')")
    case None
    with a show ?thesis unfolding eq by simp
  next
    case (Some pos)
    then show ?thesis using that by simp
  qed
  from a f have s: "pos = 0 \<or> data ! (pos - 1) = sep"
    unfolding eq by (auto split: if_splits)
  with f have eq2: "notifyTopic_read sep parseInt spp isPassive isWrite data =
      prio (drop (pos + 1) data) @ [ReadFromBus (take (pos - 1) data)]"
    unfolding eq by auto
  from a have "SetPollPriority p \<in> set (prio (drop (pos + 1) data))"
    unfolding eq2 by simp
  then have mem: "SetPollPriority p \<in> set (prio (drop (pos + 1) data))" .
  have an: "drop (pos + 1) data \<noteq> []"
  proof
    assume "drop (pos + 1) data = []"
    then have "prio (drop (pos + 1) data) = []" by (simp add: prio_def)
    with mem show False by simp
  qed
  obtain q where q: "parseInt (drop (pos + 1) data) 10 1 9 = Some q"
  proof (cases "parseInt (drop (pos + 1) data) 10 1 9")
    case None
    have "prio (drop (pos + 1) data) = []"
      unfolding prio_def None by simp
    with mem have False by simp
    then show ?thesis ..
  next
    case (Some q)
    then show ?thesis using that by simp
  qed
  have pq: "prio (drop (pos + 1) data) =
      (if 0 < q then SetPollPriority q # (if spp q then [AddPollMessage] else []) else [])"
    unfolding prio_def q using an by simp
  have q0: "0 < q"
  proof (rule ccontr)
    assume "\<not> 0 < q"
    with pq have "prio (drop (pos + 1) data) = []" by simp
    with mem show False by simp
  qed
  have qp: "q = p"
    using mem unfolding pq using q0 by (cases "spp q") simp_all
  from q q0 qp have pi: "parseInt (drop (pos + 1) data) 10 1 9 = Some p" "0 < p" by simp_all
  have pr: "prio (drop (pos + 1) data) = SetPollPriority p # (if spp p then [AddPollMessage] else [])"
    using an pi by (simp add: prio_def)
  have rd: "notifyTopic_read sep parseInt spp isPassive isWrite data =
       SetPollPriority p # (if spp p then [AddPollMessage] else []) @ [ReadFromBus (take (pos - 1) data)]"
    unfolding eq2 pr by simp
  from find_last_of_SomeD [OF f] have l: "pos < length data" by simp
  then have "length (take (pos - 1) data) < length data" by simp
  then have tne: "take (pos - 1) data \<noteq> data" by (metis less_irrefl)
  have nr: "ReadFromBus data \<notin> set (notifyTopic_read sep parseInt spp isPassive isWrite data)"
  proof
    assume "ReadFromBus data \<in> set (notifyTopic_read sep parseInt spp isPassive isWrite data)"
    then have "ReadFromBus data = ReadFromBus (take (pos - 1) data)"
      unfolding rd by (cases "spp p") simp_all
    then have "data = take (pos - 1) data" by (simp only: bus_call.inject)
    with tne show False by metis
  qed
  have ir: "ReadFromBus (take (pos - 1) data)
      \<in> set (notifyTopic_read sep parseInt spp isPassive isWrite data)"
    unfolding rd by simp
  from nr ir f s pi find_last_of_SomeD [OF f] np nw
  show "\<not> isPassive \<and> \<not> isWrite \<and> (\<exists>pos. find_last_of data (CHR ''?'') = Some pos
           \<and> pos < length data \<and> data ! pos = CHR ''?''
           \<and> (\<forall>j. pos < j \<and> j < length data \<longrightarrow> data ! j \<noteq> CHR ''?'')
           \<and> (pos = 0 \<or> data ! (pos - 1) = sep)
           \<and> parseInt (drop (pos + 1) data) 10 1 9 = Some p \<and> 0 < p
           \<and> ReadFromBus (take (pos - 1) data)
               \<in> set (notifyTopic_read sep parseInt spp isPassive isWrite data)
           \<and> ReadFromBus data \<notin> set (notifyTopic_read sep parseInt spp isPassive isWrite data))"
    by (intro conjI exI [of _ pos]) simp_all
qed

theorem notifyTopic_poll_priority_witness:
  "notifyTopic_read (CHR '';'') (\<lambda>str base lo hi. if str = ''5'' then Some 5 else None)
       (\<lambda>p. True) False False ''?5''
     = [SetPollPriority 5, AddPollMessage, ReadFromBus []]
   \<and> notifyTopic_read (CHR '';'') (\<lambda>str base lo hi. if str = ''5'' then Some 5 else None)
       (\<lambda>p. True) False False ''1;?5''
     = [SetPollPriority 5, AddPollMessage, ReadFromBus ''1'']"
proof -
  have "notifyTopic_read (CHR '';'') (\<lambda>str base lo hi. if str = ''5'' then Some 5 else None)
       (\<lambda>p. True) False False ''1;?5''
     = [SetPollPriority 5, AddPollMessage, ReadFromBus ''1'']"
    by code_simp
  with notifyTopic_poll_priority
         [of "\<lambda>str base lo hi. if str = ''5'' then Some 5 else None" "CHR '';''" "\<lambda>p. True"
             5 False False "''1;?5''"]
  show ?thesis by simp
qed

text \<open>
  C9 (amended). In the loop of \<open>run\<close> a connection attempt (\<^verbatim>\<open>mosquitto_connect\<close>
  or \<^verbatim>\<open>mosquitto_reconnect\<close>) is made only while the handler is not connected and the
  client reports no connection or a lost connection, and only by the call of
  \<open>handleTraffic\<close> at the start of the iteration that directly follows one in which the
  periodic task timer fired: that earlier iteration read a clock that is not before
  \<open>start\<close> and more than 15 seconds after \<open>lastTaskRun\<close>, ran the periodic task and
  set \<open>allowReconnect\<close>, which every iteration clears after its call of
  \<open>handleTraffic\<close>. The timer of the attempting iteration itself need not fire: its test
  comes after the attempt. So the first iteration makes no attempt, an iteration whose
  predecessor did not run the periodic task makes none, and attempts are not made on
  every iteration: when two iterations in a row attempt, the first of them ran the
  periodic task, on a clock more than 15 seconds after the end of the task before it.
\<close>

theorem reconnect_only_after_task:
  assumes "k < length inps" and "attempted (run h t0 inps ! k) = Some c"
  shows "0 < k
     \<and> task_ran (run h t0 inps ! (k - 1))
     \<and> start (run_state_at (run_init h t0) inps (k - 1)) \<le> t_now (inps ! (k - 1))
     \<and> lastTaskRun (run_state_at (run_init h t0) inps (k - 1)) + 15 < t_now (inps ! (k - 1))
     \<and> allowReconnect (run_state_at (run_init h t0) inps k)
     \<and> lastTaskRun (run_state_at (run_init h t0) inps k) = t_task_end (inps ! (k - 1))
     \<and> \<not> m_connected (handler (run_state_at (run_init h t0) inps k))
     \<and> (loop_ret (inps ! k) = MOSQ_ERR_NO_CONN \<or> loop_ret (inps ! k) = MOSQ_ERR_CONN_LOST)
     \<and> (\<forall>c'. Suc k < length inps \<and> attempted (run h t0 inps ! Suc k) = Some c' \<longrightarrow>
            task_ran (run h t0 inps ! k)
            \<and> t_task_end (inps ! (k - 1)) + 15 < t_now (inps ! k))"
proof -
  from run_loop_attempt [OF assms(1) assms(2) [unfolded run_def]]
  have a: "allowReconnect (run_state_at (run_init h t0) inps k)"
    and b: "\<not> m_connected (handler (run_state_at (run_init h t0) inps k))"
    and c: "loop_ret (inps ! k) = MOSQ_ERR_NO_CONN \<or> loop_ret (inps ! k) = MOSQ_ERR_CONN_LOST"
    by (simp_all add: Let_def)
  have k: "0 < k"
  proof (rule ccontr)
    assume "\<not> 0 < k"
    with a show False by (simp add: run_init_def)
  qed
  then obtain j where j: "k = Suc j" by (cases k) auto
  with assms(1) have jl: "j < length inps" by simp
  from run_state_at_flag [OF jl, of "run_init h t0"] a j
  have f: "start (run_state_at (run_init h t0) inps j) \<le> t_now (inps ! j)"
      "lastTaskRun (run_state_at (run_init h t0) inps j) + 15 < t_now (inps ! j)"
      "task_ran (run_loop (run_init h t0) inps ! j)"
    by simp_all
  have l: "lastTaskRun (run_state_at (run_init h t0) inps k) = t_task_end (inps ! j)"
    unfolding j run_state_at_Suc [OF jl] using f(1,2) by (rule run_iteration_lastTaskRun)
  have n: "task_ran (run h t0 inps ! k) \<and> t_task_end (inps ! (k - 1)) + 15 < t_now (inps ! k)"
    if "Suc k < length inps" and "attempted (run h t0 inps ! Suc k) = Some c'" for c'
  proof -
    from run_loop_attempt [OF that(1) that(2) [unfolded run_def]]
    have "allowReconnect (run_state_at (run_init h t0) inps (Suc k))"
      by (simp add: Let_def)
    with run_state_at_flag [OF assms(1), of "run_init h t0"]
    have "lastTaskRun (run_state_at (run_init h t0) inps k) + 15 < t_now (inps ! k)"
      and "task_ran (run_loop (run_init h t0) inps ! k)"
      by simp_all
    with l j show ?thesis by (simp add: run_def)
  qed
  from f l a b c k j have "0 < k
     \<and> task_ran (run h t0 inps ! (k - 1))
     \<and> start (run_state_at (run_init h t0) inps (k - 1)) \<le> t_now (inps ! (k - 1))
     \<and> lastTaskRun (run_state_at (run_init h t0) inps (k - 1)) + 15 < t_now (inps ! (k - 1))
     \<and> allowReconnect (run_state_at (run_init h t0) inps k)
     \<and> lastTaskRun (run_state_at (run_init h t0) inps k) = t_task_end (inps ! (k - 1))
     \<and> \<not> m_connected (handler (run_state_at (run_init h t0) inps k))
     \<and> (loop_ret (inps ! k) = MOSQ_ERR_NO_CONN \<or> loop_ret (inps ! k) = MOSQ_ERR_CONN_LOST)"
    by (simp add: run_def)
  with n show ?thesis by blast
qed

theorem reconnect_only_after_task_witness:
  "task_ran (run \<lparr>m_mosquitto = True, m_connected = False, m_initialConnectFailed = False,
                    m_lastErrorLogTime = 0\<rparr> 100
       [\<lparr>loop_ret = MOSQ_ERR_NO_CONN, conn_ret = MOSQ_ERR_NO_CONN, t_now = 116,
          t_task_end = 116, t_log = 116\<rparr>,
        \<lparr>loop_ret = MOSQ_ERR_NO_CONN, conn_ret = MOSQ_ERR_NO_CONN, t_now = 140,
          t_task_end = 140, t_log = 140\<rparr>,
        \<lparr>loop_ret = MOSQ_ERR_NO_CONN, conn_ret = MOSQ_ERR_SUCCESS, t_now = 146,
          t_task_end = 146, t_log = 146\<rparr>] ! 0)
   \<and> attempted (run \<lparr>m_mosquitto = True, m_connected = False, m_initialConnectFailed = False,
                    m_lastErrorLogTime = 0\<rparr> 100
       [\<lparr>loop_ret = MOSQ_ERR_NO_CONN, conn_ret = MOSQ_ERR_NO_CONN, t_now = 116,
          t_task_end = 116, t_log = 116\<rparr>,
        \<lparr>loop_ret = MOSQ_ERR_NO_CONN, conn_ret = MOSQ_ERR_NO_CONN, t_now = 140,
          t_task_end = 140, t_log = 140\<rparr>,
        \<lparr>loop_ret = MOSQ_ERR_NO_CONN, conn_ret = MOSQ_ERR_SUCCESS, t_now = 146,
          t_task_end = 146, t_log = 146\<rparr>] ! 1) = Some Mosquitto_reconnect
   \<and> task_ran (run \<lparr>m_mosquitto = True, m_connected = False, m_initialConnectFailed = False,
                    m_lastErrorLogTime = 0\<rparr> 100
       [\<lparr>loop_ret = MOSQ_ERR_NO_CONN, conn_ret = MOSQ_ERR_NO_CONN, t_now = 116,
          t_task_end = 116, t_log = 116\<rparr>,
        \<lparr>loop_ret = MOSQ_ERR_NO_CONN, conn_ret = MOSQ_ERR_NO_CONN, t_now = 140,
          t_task_end = 140, t_log = 140\<rparr>,
        \<lparr>loop_ret = MOSQ_ERR_NO_CONN, conn_ret = MOSQ_ERR_SUCCESS, t_now = 146,
          t_task_end = 146, t_log = 146\<rparr>] ! 1)
   \<and> attempted (run \<lparr>m_mosquitto = True, m_connected = False, m_initialConnectFailed = False,
                    m_lastErrorLogTime = 0\<rparr> 100
       [\<lparr>loop_ret = MOSQ_ERR_NO_CONN, conn_ret = MOSQ_ERR_NO_CONN, t_now = 116,
          t_task_end = 116, t_log = 116\<rparr>,
        \<lparr>loop_ret = MOSQ_ERR_NO_CONN, conn_ret = MOSQ_ERR_NO_CONN, t_now = 140,
          t_task_end = 140, t_log = 140\<rparr>,
        \<lparr>loop_ret = MOSQ_ERR_NO_CONN, conn_ret = MOSQ_ERR_SUCCESS, t_now = 146,
          t_task_end = 146, t_log = 146\<rparr>] ! 2) = Some Mosquitto_reconnect"
proof -
  let ?h = "\<lparr>m_mosquitto = True, m_connected = False, m_initialConnectFailed = False,
                    m_lastErrorLogTime = 0\<rparr>"
  let ?inps = "[\<lparr>loop_ret = MOSQ_ERR_NO_CONN, conn_ret = MOSQ_ERR_NO_CONN, t_now = 116,
          t_task_end = 116, t_log = 116\<rparr>,
        \<lparr>loop_ret = MOSQ_ERR_NO_CONN, conn_ret = MOSQ_ERR_NO_CONN, t_now = 140,
          t_task_end = 140, t_log = 140\<rparr>,
        \<lparr>loop_ret = MOSQ_ERR_NO_CONN, conn_ret = MOSQ_ERR_SUCCESS, t_now = 146,
          t_task_end = 146, t_log = 146\<rparr>]"
  have a1: "attempted (run ?h 100 ?inps ! 1) = Some Mosquitto_reconnect"
    by code_simp
  have a2: "attempted (run ?h 100 ?inps ! Suc 1) = Some Mosquitto_reconnect"
    by code_simp
  have l: "1 < length ?inps" "Suc 1 < length ?inps" by simp_all
  from reconnect_only_after_task [OF l(1) a1] a1 a2 l(2) show ?thesis
    by (simp add: numeral_2_eq_2)
qed

theorem reconnect_only_after_task_counterexample:
  "run \<lparr>m_mosquitto = True, m_connected = False, m_initialConnectFailed = False,
         m_lastErrorLogTime = 0\<rparr> 100
       [\<lparr>loop_ret = MOSQ_ERR_NO_CONN, conn_ret = MOSQ_ERR_SUCCESS, t_now = 116,
          t_task_end = 116, t_log = 116\<rparr>,
        \<lparr>loop_ret = MOSQ_ERR_NO_CONN, conn_ret = MOSQ_ERR_SUCCESS, t_now = 121,
          t_task_end = 121, t_log = 121\<rparr>]
     = [\<lparr>attempted = None, task_ran = True\<rparr>,
        \<lparr>attempted = Some Mosquitto_reconnect, task_ran = False\<rparr>]
   \<and> lastTaskRun (run_state_at
         (run_init \<lparr>m_mosquitto = True, m_connected = False, m_initialConnectFailed = False,
                     m_lastErrorLogTime = 0\<rparr> 100)
         [\<lparr>loop_ret = MOSQ_ERR_NO_CONN, conn_ret = MOSQ_ERR_SUCCESS, t_now = 116,
            t_task_end = 116, t_log = 116\<rparr>,
          \<lparr>loop_ret = MOSQ_ERR_NO_CONN, conn_ret = MOSQ_ERR_SUCCESS, t_now = 121,
            t_task_end = 121, t_log = 121\<rparr>] 1) = 116
   \<and> \<not> (lastTaskRun (run_state_at
         (run_init \<lparr>m_mosquitto = True, m_connected = False, m_initialConnectFailed = False,
                     m_lastErrorLogTime = 0\<rparr> 100)
         [\<lparr>loop_ret = MOSQ_ERR_NO_CONN, conn_ret = MOSQ_ERR_SUCCESS, t_now = 116,
            t_task_end = 116, t_log = 116\<rparr>,
          \<lparr>loop_ret = MOSQ_ERR_NO_CONN, conn_ret = MOSQ_ERR_SUCCESS, t_now = 121,
            t_task_end = 121, t_log = 121\<rparr>] 1) + 15
        < t_now \<lparr>loop_ret = MOSQ_ERR_NO_CONN, conn_ret = MOSQ_ERR_SUCCESS, t_now = 121,
            t_task_end = 121, t_log = 121\<rparr>)"
  by code_simp

text \<open>
  C10. The integer overload of \<open>set\<close> writes the decimal rendering of the value as the
  constant of the key and nothing else: every other constant, the one under the
  upper-cased key included, and every stored template stay as they were.
\<close>

theorem set_int_frame:
  "m_constants (MqttReplacers_set_int s key v) key = Some (stream_int (sint v))
   \<and> (\<forall>k. k \<noteq> key \<longrightarrow> m_constants (MqttReplacers_set_int s key v) k = m_constants s k)
   \<and> (map toupper key \<noteq> key \<longrightarrow>
        m_constants (MqttReplacers_set_int s key v) (map toupper key)
          = m_constants s (map toupper key))
   \<and> m_replacers (MqttReplacers_set_int s key v) = m_replacers s"
  by (simp add: MqttReplacers_set_int_def)

theorem set_int_frame_witness:
  "m_constants (MqttReplacers_set_int
       \<lparr>m_constants = Map.empty,
        m_replacers = [(''PRIORITY'', \<lparr>m_parts = [], m_emptyIfMissing = False\<rparr>),
                       (''priority'', \<lparr>m_parts = [], m_emptyIfMissing = False\<rparr>)]\<rparr>
       ''priority'' (- 12)) ''priority'' = Some ''-12''
   \<and> m_constants (MqttReplacers_set_int
       \<lparr>m_constants = Map.empty,
        m_replacers = [(''PRIORITY'', \<lparr>m_parts = [], m_emptyIfMissing = False\<rparr>),
                       (''priority'', \<lparr>m_parts = [], m_emptyIfMissing = False\<rparr>)]\<rparr>
       ''priority'' (- 12)) ''PRIORITY'' = None
   \<and> m_replacers (MqttReplacers_set_int
       \<lparr>m_constants = Map.empty,
        m_replacers = [(''PRIORITY'', \<lparr>m_parts = [], m_emptyIfMissing = False\<rparr>),
                       (''priority'', \<lparr>m_parts = [], m_emptyIfMissing = False\<rparr>)]\<rparr>
       ''priority'' (- 12))
     = [(''PRIORITY'', \<lparr>m_parts = [], m_emptyIfMissing = False\<rparr>),
        (''priority'', \<lparr>m_parts = [], m_emptyIfMissing = False\<rparr>)]"
proof -
  have r: "stream_int (sint (- 12 :: 32 word)) = ''-12''" by code_simp
  have u: "map toupper ''priority'' = ''PRIORITY''" by code_simp
  from set_int_frame
         [of "\<lparr>m_constants = Map.empty,
        m_replacers = [(''PRIORITY'', \<lparr>m_parts = [], m_emptyIfMissing = False\<rparr>),
                       (''priority'', \<lparr>m_parts = [], m_emptyIfMissing = False\<rparr>)]\<rparr>"
             "''priority''" "- 12"]
  show ?thesis unfolding r u by simp
qed

end
